theory Spec2Isabelle
  imports Main "HOL-Library.Word"
begin

unbundle bit_operations_syntax

section \<open>The class template \<open>buffer::CircularBuffer<T, buffer_size, index_t>\<close>\<close>

text \<open>
  The embedding follows \<open>src/include/CircularBuffer.h\<close>.

  \<^item> The element type \<open>T\<close> is the type variable \<open>'a\<close>.
  \<^item> The template argument \<open>buffer_size\<close> is a \<open>size_t\<close>; it is the first argument
    \<open>bs\<close> of every operation that reads it. \<open>size_t\<close> is taken as 64 bits wide and
    \<open>int\<close> as 32 bits wide (LP64).
  \<^item> The template argument \<open>index_t\<close> is an unsigned integer type of
    \<open>LENGTH('w)\<close> bits (\<open>uint8_t\<close>, \<open>uint16_t\<close>, \<open>uint32_t\<close> or \<open>size_t\<close>); the
    counters are \<open>'w word\<close>.
  \<^item> A pointer into \<open>m_dataBuff\<close> is the number of the slot it points to, and
    \<open>NULL\<close> is \<open>None\<close>.
  \<^item> A caller's array is a list; \<open>*data\<close> of \<open>remove(T *data)\<close> is passed in and
    handed back.
\<close>

type_synonym size_t = "64 word"

record (overloaded) ('a, 'w) CircularBuffer =
  m_head :: "'w word"
  m_tail :: "'w word"
  m_dataBuff :: "'a list"

text \<open>\<open>const static index_t buffer_mask = buffer_size - 1\<close>: the subtraction is done in
  \<open>size_t\<close> and the result converted to \<open>index_t\<close>.\<close>

definition buffer_mask :: "size_t \<Rightarrow> 'w::len word" where
  "buffer_mask bs = ucast (bs - 1)"

text \<open>
  The value of the expression \<open>m_head - m_tail\<close>. Operands of a type narrower than
  \<open>int\<close> are promoted to \<open>int\<close> first, so the difference is an \<open>int\<close> that may be
  negative; operands of a type at least as wide as \<open>int\<close> are subtracted in
  \<open>index_t\<close> itself, modulo \<open>2 ^ LENGTH('w)\<close>.
\<close>

definition head_minus_tail :: "'w::len word \<Rightarrow> 'w word \<Rightarrow> int" where
  "head_minus_tail h t = (if LENGTH('w) < 32 then uint h - uint t else uint (h - t))"

text \<open>The conversions of that value to \<open>size_t\<close> (in a comparison or a subtraction with a
  \<open>size_t\<close> operand) and to \<open>index_t\<close> (in an initialisation or a \<open>return\<close>).\<close>

definition to_size_t :: "int \<Rightarrow> size_t" where
  "to_size_t x = word_of_int x"

definition to_index_t :: "int \<Rightarrow> 'w::len word" where
  "to_index_t x = word_of_int x"

text \<open>The default constructor. The assertion is the one of a build without \<open>NDEBUG\<close>; a
  failed assertion aborts, which is \<open>None\<close>. The array is not initialised: \<open>mem\<close> is
  what the storage holds when the object is created.\<close>

definition CircularBuffer_ctor :: "size_t \<Rightarrow> 'a list \<Rightarrow> ('a, 'w::len) CircularBuffer option" where
  "CircularBuffer_ctor bs mem =
     (if bs AND ucast (buffer_mask bs :: 'w word) = 0
      then Some \<lparr>m_head = 0, m_tail = 0, m_dataBuff = mem\<rparr>
      else None)"

definition clear :: "('a, 'w::len) CircularBuffer \<Rightarrow> ('a, 'w) CircularBuffer" where
  "clear s = s\<lparr>m_tail := m_head s\<rparr>"

definition readAvailable :: "('a, 'w::len) CircularBuffer \<Rightarrow> 'w word" where
  "readAvailable s = to_index_t (head_minus_tail (m_head s) (m_tail s))"

definition writeAvailable :: "size_t \<Rightarrow> ('a, 'w::len) CircularBuffer \<Rightarrow> 'w word" where
  "writeAvailable bs s = ucast (bs - to_size_t (head_minus_tail (m_head s) (m_tail s)))"

definition isEmpty :: "('a, 'w::len) CircularBuffer \<Rightarrow> bool" where
  "isEmpty s = (readAvailable s = 0)"

definition isFull :: "size_t \<Rightarrow> ('a, 'w::len) CircularBuffer \<Rightarrow> bool" where
  "isFull bs s = (writeAvailable bs s = 0)"

text \<open>\<open>bool insert(T data)\<close>; \<open>insert(const T *data)\<close> has the same body with \<open>*data\<close>
  for \<open>data\<close>.\<close>

definition insert_cb ::
  "size_t \<Rightarrow> 'a \<Rightarrow> ('a, 'w::len) CircularBuffer \<Rightarrow> bool \<times> ('a, 'w) CircularBuffer" where
  "insert_cb bs data s =
     (if to_size_t (head_minus_tail (m_head s) (m_tail s)) = bs
      then (False, s)
      else (True, s\<lparr>m_dataBuff := (m_dataBuff s)[unat (m_head s AND buffer_mask bs) := data],
                     m_head := m_head s + 1\<rparr>))"

text \<open>\<open>bool remove()\<close>.\<close>

definition remove_cb :: "('a, 'w::len) CircularBuffer \<Rightarrow> bool \<times> ('a, 'w) CircularBuffer" where
  "remove_cb s =
     (if m_tail s = m_head s then (False, s) else (True, s\<lparr>m_tail := m_tail s + 1\<rparr>))"

text \<open>\<open>size_t remove(size_t cnt)\<close>. The comparison and the conditional are in
  \<open>size_t\<close>; \<open>m_tail += cnt\<close> adds in \<open>size_t\<close> and converts back to \<open>index_t\<close>.\<close>

definition remove_cnt ::
  "size_t \<Rightarrow> ('a, 'w::len) CircularBuffer \<Rightarrow> size_t \<times> ('a, 'w) CircularBuffer" where
  "remove_cnt cnt s =
     (let avail = (to_index_t (head_minus_tail (m_head s) (m_tail s)) :: 'w word);
          cnt' = (if cnt > ucast avail then ucast avail else cnt)
      in (cnt', s\<lparr>m_tail := ucast (ucast (m_tail s) + cnt')\<rparr>))"

text \<open>\<open>bool remove(T *data)\<close>, which \<open>remove(T &data)\<close> calls: the second component is
  \<open>*data\<close> after the call.\<close>

definition remove_ptr ::
  "size_t \<Rightarrow> 'a \<Rightarrow> ('a, 'w::len) CircularBuffer \<Rightarrow> bool \<times> 'a \<times> ('a, 'w) CircularBuffer" where
  "remove_ptr bs data s =
     (if m_tail s = m_head s
      then (False, data, s)
      else (True, m_dataBuff s ! unat (m_tail s AND buffer_mask bs),
            s\<lparr>m_tail := m_tail s + 1\<rparr>))"

text \<open>\<open>T *peek()\<close> and \<open>T *at(size_t index)\<close> are not \<open>const\<close>: they return the buffer
  too.\<close>

definition peek ::
  "size_t \<Rightarrow> ('a, 'w::len) CircularBuffer \<Rightarrow> nat option \<times> ('a, 'w) CircularBuffer" where
  "peek bs s =
     (if m_tail s = m_head s then (None, s)
      else (Some (unat (m_tail s AND buffer_mask bs)), s))"

definition at_cb ::
  "size_t \<Rightarrow> size_t \<Rightarrow> ('a, 'w::len) CircularBuffer \<Rightarrow> nat option \<times> ('a, 'w) CircularBuffer" where
  "at_cb bs index s =
     (if to_size_t (head_minus_tail (m_head s) (m_tail s)) \<le> index then (None, s)
      else (Some (unat ((ucast (m_tail s) + index) AND ucast (buffer_mask bs :: 'w word))), s))"

text \<open>The loop of \<open>writeBuff\<close>: \<open>for (size_t i = 0; i < to_write; i++)
  m_dataBuff[m_head++ & buffer_mask] = buff[i]\<close>.\<close>

function writeBuff_loop ::
  "size_t \<Rightarrow> 'a list \<Rightarrow> nat \<Rightarrow> nat \<Rightarrow> ('a, 'w::len) CircularBuffer \<Rightarrow> ('a, 'w) CircularBuffer" where
  "writeBuff_loop bs buff i to_write s =
     (if i < to_write
      then writeBuff_loop bs buff (Suc i) to_write
             (s\<lparr>m_dataBuff := (m_dataBuff s)[unat (m_head s AND buffer_mask bs) := buff ! i],
                m_head := m_head s + 1\<rparr>)
      else s)"
  by pat_completeness auto
termination
  by (relation "measure (\<lambda>(bs, buff, i, to_write, s). to_write - i)") auto

definition writeBuff ::
  "size_t \<Rightarrow> 'a list \<Rightarrow> size_t \<Rightarrow> ('a, 'w::len) CircularBuffer \<Rightarrow> size_t \<times> ('a, 'w) CircularBuffer" where
  "writeBuff bs buff count s =
     (let available = (ucast (bs - to_size_t (head_minus_tail (m_head s) (m_tail s))) :: 'w word);
          to_write = (if ucast available < count then ucast available else count)
      in (to_write, writeBuff_loop bs buff 0 (unat to_write) s))"

text \<open>The loop of \<open>readBuff\<close>: \<open>for (size_t i = 0; i < to_read; i++)
  buff[i] = m_dataBuff[m_tail++ & buffer_mask]\<close>; the caller's array is returned with the
  buffer.\<close>

function readBuff_loop ::
  "size_t \<Rightarrow> nat \<Rightarrow> nat \<Rightarrow> 'a list \<times> ('a, 'w::len) CircularBuffer \<Rightarrow> 'a list \<times> ('a, 'w) CircularBuffer" where
  "readBuff_loop bs i to_read (buff, s) =
     (if i < to_read
      then readBuff_loop bs (Suc i) to_read
             (buff[i := m_dataBuff s ! unat (m_tail s AND buffer_mask bs)],
              s\<lparr>m_tail := m_tail s + 1\<rparr>)
      else (buff, s))"
  by pat_completeness auto
termination
  by (relation "measure (\<lambda>(bs, i, to_read, p). to_read - i)") auto

definition readBuff ::
  "size_t \<Rightarrow> 'a list \<Rightarrow> size_t \<Rightarrow> ('a, 'w::len) CircularBuffer
     \<Rightarrow> size_t \<times> 'a list \<times> ('a, 'w) CircularBuffer" where
  "readBuff bs buff count s =
     (let available = (to_index_t (head_minus_tail (m_head s) (m_tail s)) :: 'w word);
          to_read = (if ucast available < count then ucast available else count)
      in (to_read, readBuff_loop bs 0 (unat to_read) (buff, s)))"

section \<open>Sequences of calls\<close>

text \<open>A call of a public member function that can change the object, with its
  arguments; \<open>exec\<close> makes the call and keeps the object, \<open>run\<close> makes the calls of
  a list from left to right.\<close>

datatype 'a call =
    Insert 'a
  | Remove
  | RemoveCnt size_t
  | RemovePtr 'a
  | Clear
  | Peek
  | At size_t
  | WriteBuff "'a list" size_t
  | ReadBuff "'a list" size_t

fun exec :: "size_t \<Rightarrow> 'a call \<Rightarrow> ('a, 'w::len) CircularBuffer \<Rightarrow> ('a, 'w) CircularBuffer" where
  "exec bs (Insert v) s = snd (insert_cb bs v s)"
| "exec bs Remove s = snd (remove_cb s)"
| "exec bs (RemoveCnt cnt) s = snd (remove_cnt cnt s)"
| "exec bs (RemovePtr d) s = snd (snd (remove_ptr bs d s))"
| "exec bs Clear s = clear s"
| "exec bs Peek s = snd (peek bs s)"
| "exec bs (At i) s = snd (at_cb bs i s)"
| "exec bs (WriteBuff buff count) s = snd (writeBuff bs buff count s)"
| "exec bs (ReadBuff buff count) s = snd (snd (readBuff bs buff count s))"

definition run ::
  "size_t \<Rightarrow> 'a call list \<Rightarrow> ('a, 'w::len) CircularBuffer \<Rightarrow> ('a, 'w) CircularBuffer" where
  "run bs calls s = fold (exec bs) calls s"

text \<open>\<open>insert\<close> called with each value of a list in turn: the results and the object
  after the last call.\<close>

fun insert_seq ::
  "size_t \<Rightarrow> 'a list \<Rightarrow> ('a, 'w::len) CircularBuffer \<Rightarrow> bool list \<times> ('a, 'w) CircularBuffer" where
  "insert_seq bs [] s = ([], s)"
| "insert_seq bs (v # vs) s =
     (case insert_cb bs v s of (ok, s') \<Rightarrow>
        (case insert_seq bs vs s' of (oks, s'') \<Rightarrow> (ok # oks, s'')))"

text \<open>\<open>remove(T *data)\<close> called \<open>n\<close> times on the same variable: the result of each call
  with the value of the variable after it.\<close>

fun remove_seq ::
  "size_t \<Rightarrow> nat \<Rightarrow> 'a \<Rightarrow> ('a, 'w::len) CircularBuffer \<Rightarrow> (bool \<times> 'a) list" where
  "remove_seq bs 0 d s = []"
| "remove_seq bs (Suc n) d s =
     (case remove_ptr bs d s of (ok, d', s') \<Rightarrow> (ok, d') # remove_seq bs n d' s')"

section \<open>Predicates of the specification\<close>

text \<open>The number of pending elements, \<open>head - tail\<close> modulo \<open>2 ^ LENGTH('w)\<close>, is at most
  the capacity.\<close>

definition count_inv :: "size_t \<Rightarrow> ('a, 'w::len) CircularBuffer \<Rightarrow> bool" where
  "count_inv bs s = (unat (m_head s - m_tail s) \<le> unat bs)"

text \<open>A capacity is a power of two.\<close>

definition is_power_of_two :: "size_t \<Rightarrow> bool" where
  "is_power_of_two n = (n \<in> set (map (\<lambda>k. 2 ^ k) [0..<64]))"

section \<open>Conversions between \<open>index_t\<close> and \<open>size_t\<close>\<close>

lemma readAvailable_diff: "readAvailable s = m_head s - m_tail s"
  by (simp add: readAvailable_def to_index_t_def head_minus_tail_def)

lemma isEmpty_iff: "isEmpty s \<longleftrightarrow> m_head s = m_tail s"
  by (simp add: isEmpty_def readAvailable_diff)

lemma down_size_t: "LENGTH('w::len) \<le> 64 \<Longrightarrow> is_down (ucast :: size_t \<Rightarrow> 'w word)"
  by (simp add: is_down)

lemma ucast_down_size_t:
  "LENGTH('w::len) \<le> 64 \<Longrightarrow> (ucast (word_of_int x :: size_t) :: 'w word) = word_of_int x"
  by (rule ucast_down_wi) (rule down_size_t)

lemma ucast_down_minus:
  assumes "LENGTH('w::len) \<le> 64"
  shows "(ucast (a - b :: size_t) :: 'w word) = ucast a - ucast b"
proof -
  have "a - b = word_of_int (uint a - uint b)"
    by (simp only: wi_hom_sub [symmetric] word_of_int_uint)
  then have "(ucast (a - b) :: 'w word) = word_of_int (uint a - uint b)"
    by (simp only: ucast_down_size_t [OF assms])
  also have "\<dots> = word_of_int (uint a) - word_of_int (uint b)"
    by (simp only: wi_hom_sub)
  also have "\<dots> = ucast a - ucast b"
    by (simp only: ucast_eq)
  finally show ?thesis .
qed

lemma ucast_down_plus:
  assumes "LENGTH('w::len) \<le> 64"
  shows "(ucast (a + b :: size_t) :: 'w word) = ucast a + ucast b"
proof -
  have "a + b = word_of_int (uint a + uint b)"
    by (simp only: wi_hom_add [symmetric] word_of_int_uint)
  then have "(ucast (a + b) :: 'w word) = word_of_int (uint a + uint b)"
    by (simp only: ucast_down_size_t [OF assms])
  also have "\<dots> = word_of_int (uint a) + word_of_int (uint b)"
    by (simp only: wi_hom_add)
  also have "\<dots> = ucast a + ucast b"
    by (simp only: ucast_eq)
  finally show ?thesis .
qed

lemma ucast_up_down:
  "LENGTH('w::len) \<le> 64 \<Longrightarrow> (ucast (ucast (a :: 'w word) :: size_t) :: 'w word) = a"
  by (rule ucast_up_ucast_id) (simp add: is_up)

lemma unat_ucast_up:
  assumes "LENGTH('w::len) \<le> 64"
  shows "unat (ucast (a :: 'w word) :: size_t) = unat a"
proof -
  have "unat a < 2 ^ LENGTH('w)" by (rule unsigned_less)
  also have "(2::nat) ^ LENGTH('w) \<le> 2 ^ 64"
    using assms by (intro power_increasing) simp_all
  finally have "unat a < 2 ^ 64" .
  then show ?thesis
    by (simp add: unsigned_ucast_eq take_bit_nat_eq_self_iff)
qed

lemma to_size_t_down:
  "LENGTH('w::len) \<le> 64 \<Longrightarrow> (ucast (to_size_t x) :: 'w word) = to_index_t x"
  by (simp only: to_size_t_def to_index_t_def ucast_down_size_t)

lemma to_index_t_hmt: "to_index_t (head_minus_tail h t) = h - t"
  by (simp add: to_index_t_def head_minus_tail_def)

lemma writeAvailable_diff:
  "LENGTH('w::len) \<le> 64 \<Longrightarrow>
   writeAvailable bs (s :: ('a, 'w) CircularBuffer) = ucast bs - (m_head s - m_tail s)"
  by (simp only: writeAvailable_def ucast_down_minus to_size_t_down to_index_t_hmt)

lemma ucast_index_le:
  "LENGTH('w::len) \<le> 64 \<Longrightarrow> (ucast (a :: 'w word) :: size_t) \<le> ucast (b :: 'w word) \<longleftrightarrow> a \<le> b"
  by (simp add: word_le_nat_alt unat_ucast_up)

lemma ucast_index_less:
  "LENGTH('w::len) \<le> 64 \<Longrightarrow> (ucast (a :: 'w word) :: size_t) < ucast (b :: 'w word) \<longleftrightarrow> a < b"
  by (simp add: word_less_nat_alt unat_ucast_up)

lemma remove_cnt_result:
  assumes "LENGTH('w::len) \<le> 64"
  shows "remove_cnt cnt (s :: ('a, 'w) CircularBuffer) =
           (min cnt (ucast (readAvailable s)),
            s\<lparr>m_tail := m_tail s + ucast (min cnt (ucast (readAvailable s)))\<rparr>)"
proof -
  have "(ucast (ucast (m_tail s) + c :: size_t) :: 'w word) = m_tail s + ucast c" for c
    by (simp only: ucast_down_plus [OF assms] ucast_up_down [OF assms])
  then show ?thesis
    by (auto simp add: remove_cnt_def Let_def readAvailable_def min_def)
qed

section \<open>Bulk remove\<close>

lemma unat_ucast_down_small:
  assumes "LENGTH('w::len) \<le> 64" and "unat (c :: size_t) \<le> unat (a :: 'w word)"
  shows "unat (ucast c :: 'w word) = unat c"
proof -
  have "unat c < 2 ^ LENGTH('w)"
    using assms(2) unsigned_less [of a] by (rule le_less_trans)
  then show ?thesis
    by (simp add: unsigned_ucast_eq take_bit_nat_eq_self_iff)
qed

lemma unat_min_word: "unat (min a b) = min (unat a) (unat b)" for a b :: "'x::len word"
  by (simp add: min_def word_le_nat_alt)

text \<open>Claim C7. \<open>remove(cnt)\<close> removes \<open>min cnt (readAvailable ())\<close> elements: it returns
  that number and advances \<open>m_tail\<close> by it, the number of pending elements goes down by
  it, \<open>m_head\<close> and the storage are untouched, and when \<open>cnt\<close> is larger than
  \<open>readAvailable ()\<close> the result is the old \<open>readAvailable ()\<close> and the buffer is empty
  afterwards. This holds in every state, for every index type of at most 64 bits.\<close>

theorem remove_cnt_clamps:
  fixes s :: "('a, 'w::len) CircularBuffer"
  assumes w: "LENGTH('w) \<le> 64" and run: "remove_cnt cnt s = (r, s')"
  shows "unat r = min (unat cnt) (unat (readAvailable s))
       \<and> m_tail s' = m_tail s + ucast r
       \<and> unat (readAvailable s') = unat (readAvailable s) - unat r
       \<and> m_head s' = m_head s
       \<and> m_dataBuff s' = m_dataBuff s
       \<and> (unat (readAvailable s) < unat cnt \<longrightarrow>
              unat r = unat (readAvailable s) \<and> isEmpty s')"
proof -
  let ?ra = "readAvailable s"
  from run remove_cnt_result [OF w, of cnt s]
  have r: "r = min cnt (ucast ?ra)"
    and s': "s' = s\<lparr>m_tail := m_tail s + ucast r\<rparr>"
    by auto
  have ur: "unat r = min (unat cnt) (unat ?ra)"
    by (simp only: r unat_min_word unat_ucast_up [OF w])
  then have le: "unat r \<le> unat ?ra" by simp
  have ucr: "unat (ucast r :: 'w word) = unat r"
    using w le by (rule unat_ucast_down_small)
  have ra': "readAvailable s' = ?ra - ucast r"
    by (simp add: s' readAvailable_diff)
  have "(ucast r :: 'w word) \<le> ?ra"
    using le by (simp add: word_le_nat_alt ucr)
  then have "unat (?ra - ucast r) = unat ?ra - unat (ucast r :: 'w word)"
    by (rule unat_sub)
  then have cnt: "unat (readAvailable s') = unat ?ra - unat r"
    by (simp only: ra' ucr)
  have "isEmpty s'" if "unat ?ra < unat cnt"
  proof -
    from that ur have "unat r = unat ?ra" by simp
    with cnt have "unat (readAvailable s') = 0" by simp
    then show ?thesis by (simp add: isEmpty_def unat_eq_0)
  qed
  with ur cnt show ?thesis
    by (simp add: s')
qed

theorem remove_cnt_clamps_witness:
  "LENGTH(8) \<le> 64
   \<and> remove_cnt 20 \<lparr>m_head = 4 :: 8 word, m_tail = 250, m_dataBuff = [0 :: nat, 1, 2, 3]\<rparr>
       = (10, \<lparr>m_head = 4, m_tail = 4, m_dataBuff = [0, 1, 2, 3]\<rparr>)
   \<and> unat (readAvailable \<lparr>m_head = 4 :: 8 word, m_tail = 250, m_dataBuff = [0 :: nat, 1, 2, 3]\<rparr>) = 10
   \<and> unat (readAvailable \<lparr>m_head = 4 :: 8 word, m_tail = 4, m_dataBuff = [0 :: nat, 1, 2, 3]\<rparr>) = 10 - unat (10 :: size_t)
   \<and> isEmpty \<lparr>m_head = 4 :: 8 word, m_tail = 4, m_dataBuff = [0 :: nat, 1, 2, 3]\<rparr>"
proof -
  have w: "LENGTH(8) \<le> 64" by simp
  have run: "remove_cnt 20 \<lparr>m_head = 4 :: 8 word, m_tail = 250, m_dataBuff = [0 :: nat, 1, 2, 3]\<rparr>
       = (10, \<lparr>m_head = 4, m_tail = 4, m_dataBuff = [0, 1, 2, 3]\<rparr>)"
    by (simp add: remove_cnt_def Let_def to_index_t_def head_minus_tail_def)
  have ra: "unat (readAvailable \<lparr>m_head = 4 :: 8 word, m_tail = 250, m_dataBuff = [0 :: nat, 1, 2, 3]\<rparr>) = 10"
    by (simp add: readAvailable_def to_index_t_def head_minus_tail_def)
  from remove_cnt_clamps [OF w run] w run ra show ?thesis
    by simp
qed

section \<open>Frame properties\<close>

declare writeBuff_loop.simps [simp del] readBuff_loop.simps [simp del]

lemma writeBuff_loop_tail: "m_tail (writeBuff_loop bs buff i n s) = m_tail s"
proof (induction bs buff i n s rule: writeBuff_loop.induct)
  case (1 bs buff i n s)
  show ?case
  proof (cases "i < n")
    case True
    with 1 show ?thesis by (subst writeBuff_loop.simps) simp
  next
    case False
    then show ?thesis by (subst writeBuff_loop.simps) simp
  qed
qed

lemma readBuff_loop_head: "m_head (snd (readBuff_loop bs i n (buff, s))) = m_head s"
proof (induction bs i n "(buff, s)" arbitrary: buff s rule: readBuff_loop.induct)
  case (1 bs i n buff s)
  show ?case
  proof (cases "i < n")
    case True
    with 1 show ?thesis by (subst readBuff_loop.simps) simp
  next
    case False
    then show ?thesis by (subst readBuff_loop.simps) simp
  qed
qed

lemma readBuff_loop_storage: "m_dataBuff (snd (readBuff_loop bs i n (buff, s))) = m_dataBuff s"
proof (induction bs i n "(buff, s)" arbitrary: buff s rule: readBuff_loop.induct)
  case (1 bs i n buff s)
  show ?case
  proof (cases "i < n")
    case True
    with 1 show ?thesis by (subst readBuff_loop.simps) simp
  next
    case False
    then show ?thesis by (subst readBuff_loop.simps) simp
  qed
qed

text \<open>Claim C10. \<open>insert\<close> and \<open>writeBuff\<close> leave \<open>m_tail\<close> as it is; \<open>readBuff\<close> and
  the three overloads of \<open>remove\<close> leave \<open>m_head\<close> as it is; \<open>peek\<close> and \<open>at\<close> leave
  the whole object (both counters and every storage slot) as it is.\<close>

theorem producer_consumer_frame:
  "m_tail (snd (insert_cb bs v s)) = m_tail s
 \<and> m_tail (snd (writeBuff bs buff count s)) = m_tail s
 \<and> m_head (snd (snd (readBuff bs dest count s))) = m_head s
 \<and> m_head (snd (remove_cb s)) = m_head s
 \<and> m_head (snd (remove_cnt cnt s)) = m_head s
 \<and> m_head (snd (snd (remove_ptr bs d s))) = m_head s
 \<and> snd (peek bs s) = s
 \<and> snd (at_cb bs i s) = s"
  by (simp add: insert_cb_def writeBuff_def readBuff_def remove_cb_def remove_cnt_def
      remove_ptr_def peek_def at_cb_def Let_def writeBuff_loop_tail readBuff_loop_head)

section \<open>Single-element remove\<close>

text \<open>Claim C6. On an empty buffer (\<open>m_head = m_tail\<close>, which is when \<open>isEmpty\<close> holds)
  \<open>remove(T *data)\<close> returns \<open>false\<close> and leaves \<open>*data\<close> and the object as they are, and
  so does \<open>remove()\<close>. On a non-empty buffer \<open>remove(T *data)\<close> returns \<open>true\<close>, stores
  \<open>m_dataBuff[m_tail & buffer_mask]\<close> in \<open>*data\<close> and increments \<open>m_tail\<close>; \<open>remove()\<close>
  returns \<open>true\<close> and increments \<open>m_tail\<close>; one element fewer is pending.\<close>

theorem remove_empty_rejected:
  "(m_head s = m_tail s \<longrightarrow>
      isEmpty s \<and> remove_ptr bs out s = (False, out, s) \<and> remove_cb s = (False, s))
 \<and> (m_head s \<noteq> m_tail s \<longrightarrow>
      \<not> isEmpty s
    \<and> remove_ptr bs out s =
        (True, m_dataBuff s ! unat (m_tail s AND buffer_mask bs), s\<lparr>m_tail := m_tail s + 1\<rparr>)
    \<and> remove_cb s = (True, s\<lparr>m_tail := m_tail s + 1\<rparr>)
    \<and> readAvailable (s\<lparr>m_tail := m_tail s + 1\<rparr>) = readAvailable s - 1)"
  by (auto simp add: isEmpty_iff remove_ptr_def remove_cb_def readAvailable_diff)

theorem remove_empty_rejected_witness:
  "remove_ptr 4 (7 :: nat) \<lparr>m_head = 5 :: 8 word, m_tail = 5, m_dataBuff = [10, 11, 12, 13]\<rparr>
     = (False, 7, \<lparr>m_head = 5, m_tail = 5, m_dataBuff = [10, 11, 12, 13]\<rparr>)
 \<and> remove_cb \<lparr>m_head = 5 :: 8 word, m_tail = 5, m_dataBuff = [10 :: nat, 11, 12, 13]\<rparr>
     = (False, \<lparr>m_head = 5, m_tail = 5, m_dataBuff = [10, 11, 12, 13]\<rparr>)
 \<and> remove_ptr 4 (7 :: nat) \<lparr>m_head = 7 :: 8 word, m_tail = 5, m_dataBuff = [10, 11, 12, 13]\<rparr>
     = (True, 11, \<lparr>m_head = 7, m_tail = 6, m_dataBuff = [10, 11, 12, 13]\<rparr>)
 \<and> remove_cb \<lparr>m_head = 7 :: 8 word, m_tail = 5, m_dataBuff = [10 :: nat, 11, 12, 13]\<rparr>
     = (True, \<lparr>m_head = 7, m_tail = 6, m_dataBuff = [10, 11, 12, 13]\<rparr>)"
  using remove_empty_rejected
      [of "\<lparr>m_head = 5 :: 8 word, m_tail = 5, m_dataBuff = [10 :: nat, 11, 12, 13]\<rparr>" 4 7]
    remove_empty_rejected
      [of "\<lparr>m_head = 7 :: 8 word, m_tail = 5, m_dataBuff = [10 :: nat, 11, 12, 13]\<rparr>" 4 7]
  by (simp add: buffer_mask_def)

section \<open>Capacities the constructor accepts\<close>

lemma and_pred_nat_pow2:
  fixes n :: nat
  assumes "0 < n" and "n AND (n - 1) = 0"
  shows "\<exists>k. n = 2 ^ k"
  using assms
proof (induction n rule: less_induct)
  case (less n)
  show ?case
  proof (cases "even n")
    case False
    then obtain m where n: "n = 2 * m + 1" by (auto elim: oddE)
    have "n AND (n - 1) = 2 * m"
      by (subst and_rec) (simp add: n)
    with less.prems have "m = 0" by simp
    with n have "n = 2 ^ 0" by simp
    then show ?thesis by blast
  next
    case True
    then obtain m where n: "n = 2 * m" by (auto elim: evenE)
    with less.prems have m: "0 < m" by simp
    then have "(n - 1) div 2 = m - 1" using n by (cases m) simp_all
    then have "n AND (n - 1) = 2 * (m AND (m - 1))"
      by (subst and_rec) (simp add: n)
    with less.prems have "m AND (m - 1) = 0" by simp
    moreover have "m < n" using n m by simp
    ultimately obtain k where "m = 2 ^ k" using less.IH m by blast
    with n have "n = 2 ^ Suc k" by simp
    then show ?thesis by blast
  qed
qed

lemma and_pred_word_pow2:
  fixes b :: "'w::len word"
  assumes "b \<noteq> 0" and "b AND (b - 1) = 0"
  shows "\<exists>k < LENGTH('w). b = 2 ^ k"
proof -
  have "unat (b AND (b - 1)) = unat b AND (unat b - 1)"
    using assms(1) by (simp add: unsigned_and_eq unat_minus_one)
  with assms(2) have z: "unat b AND (unat b - 1) = 0" by simp
  have pos: "0 < unat b" using assms(1) by (simp add: unat_gt_0)
  from and_pred_nat_pow2 [OF pos z] obtain k where k: "unat b = 2 ^ k" by blast
  have "unat b < 2 ^ LENGTH('w)" by (rule unsigned_less)
  with k have kw: "k < LENGTH('w)" by simp
  have "b = of_nat (unat b)" by simp
  also have "\<dots> = 2 ^ k" by (simp only: k) simp
  finally show ?thesis using kw by blast
qed

lemma slot_mask:
  fixes x :: "'w::len word"
  shows "unat (x AND mask k) = unat x mod 2 ^ k"
proof -
  have "x AND mask k = take_bit k x" by (simp only: take_bit_eq_mask)
  then have "unat (x AND mask k) = take_bit k (unat x)"
    by (simp only: unsigned_take_bit_eq)
  then show ?thesis by (simp only: take_bit_eq_mod)
qed

lemma buffer_mask_down:
  assumes "LENGTH('w::len) \<le> 64"
  shows "(buffer_mask bs :: 'w word) = ucast bs - 1"
  by (simp add: buffer_mask_def ucast_down_minus [OF assms])

lemma ctor_check_down:
  assumes w: "LENGTH('w::len) \<le> 64"
    and chk: "bs AND ucast (buffer_mask bs :: 'w word) = 0"
  shows "(ucast bs :: 'w word) AND (ucast bs - 1) = 0"
proof -
  have "(ucast (bs AND ucast (buffer_mask bs :: 'w word)) :: 'w word) = 0"
    by (simp only: chk) simp
  then have "(ucast bs :: 'w word) AND ucast (ucast (buffer_mask bs :: 'w word) :: size_t) = 0"
    by (simp only: unsigned_and_eq)
  then show ?thesis
    by (simp only: ucast_up_down [OF w] buffer_mask_down [OF w])
qed

text \<open>What the assertion of the constructor gives: the capacity, converted to the index
  type, is 0 or a power of two whose predecessor is the mask.\<close>

lemma ctor_check_mask:
  assumes w: "LENGTH('w::len) \<le> 64"
    and chk: "bs AND ucast (buffer_mask bs :: 'w word) = 0"
    and nz: "(ucast bs :: 'w word) \<noteq> 0"
  shows "\<exists>k < LENGTH('w). (ucast bs :: 'w word) = 2 ^ k \<and> (buffer_mask bs :: 'w word) = mask k"
proof -
  from and_pred_word_pow2 [OF nz ctor_check_down [OF w chk]]
  obtain k where k: "k < LENGTH('w)" "(ucast bs :: 'w word) = 2 ^ k" by blast
  have "(buffer_mask bs :: 'w word) = mask k"
    by (simp only: buffer_mask_down [OF w] k mask_eq_exp_minus_1)
  with k show ?thesis by blast
qed

section \<open>First in, first out\<close>

lemma unat_ucast_down_lt:
  assumes "unat (c :: size_t) < 2 ^ LENGTH('w::len)"
  shows "unat (ucast c :: 'w word) = unat c"
  using assms by (simp add: unsigned_ucast_eq take_bit_nat_eq_self_iff)

lemma unat_succ:
  fixes x :: "'w::len word"
  assumes "unat x + 1 < 2 ^ LENGTH('w)"
  shows "unat (x + 1) = unat x + 1"
  using assms by (simp add: unat_word_ariths)

lemma unat_pow2:
  assumes "k < LENGTH('w::len)"
  shows "unat (2 ^ k :: 'w word) = 2 ^ k"
proof -
  have "(2 ^ k :: 'w word) = of_nat (2 ^ k)"
    by (simp only: of_nat_power of_nat_numeral)
  then have "unat (2 ^ k :: 'w word) = take_bit LENGTH('w) ((2::nat) ^ k)"
    by (simp only: unsigned_of_nat of_nat_id)
  also have "\<dots> = 2 ^ k"
    using assms by (simp add: take_bit_nat_eq_self_iff)
  finally show ?thesis .
qed

lemma succ_below:
  assumes "j < (2::nat) ^ k" and "k < n"
  shows "j + 1 < 2 ^ n"
proof -
  have "(2::nat) ^ k < 2 ^ n" using assms(2) by simp
  with assms(1) show ?thesis by arith
qed

lemma hmt_tail0: "to_size_t (head_minus_tail h 0) = ucast h"
proof -
  have "head_minus_tail h 0 = uint h"
    by (simp add: head_minus_tail_def)
  then show ?thesis
    by (simp only: to_size_t_def ucast_eq)
qed

lemma insert_cb_tail0:
  fixes s :: "('a, 'w::len) CircularBuffer"
  assumes w: "LENGTH('w) \<le> 64" and t: "m_tail s = 0"
  shows "insert_cb bs v s =
           (if unat (m_head s) = unat bs then (False, s)
            else (True, s\<lparr>m_dataBuff := (m_dataBuff s)[unat (m_head s AND buffer_mask bs) := v],
                          m_head := m_head s + 1\<rparr>))"
proof -
  have "(ucast (m_head s) :: size_t) = bs \<longleftrightarrow> unat (m_head s) = unat bs"
    by (simp only: word_unat_eq_iff unat_ucast_up [OF w])
  then show ?thesis
    by (simp add: insert_cb_def t hmt_tail0)
qed

lemma insert_seq_from_zero:
  fixes s :: "('a, 'w::len) CircularBuffer"
  assumes w: "LENGTH('w) \<le> 64" and k: "k < LENGTH('w)"
    and M: "(buffer_mask bs :: 'w word) = mask k" and c: "unat bs = 2 ^ k"
  shows "m_tail s = 0 \<Longrightarrow> unat (m_head s) \<le> 2 ^ k \<Longrightarrow> length (m_dataBuff s) = 2 ^ k \<Longrightarrow>
         insert_seq bs vs s = (replicate (length vs) True, s') \<Longrightarrow>
         unat (m_head s) + length vs \<le> 2 ^ k
       \<and> m_tail s' = 0
       \<and> unat (m_head s') = unat (m_head s) + length vs
       \<and> length (m_dataBuff s') = 2 ^ k
       \<and> take (unat (m_head s) + length vs) (m_dataBuff s')
           = take (unat (m_head s)) (m_dataBuff s) @ vs"
proof (induction vs arbitrary: s)
  case Nil
  then show ?case by simp
next
  case (Cons v vs)
  let ?j = "unat (m_head s)"
  let ?s1 = "s\<lparr>m_dataBuff := (m_dataBuff s)[unat (m_head s AND buffer_mask bs) := v],
                 m_head := m_head s + 1\<rparr>"
  from Cons.prems(4) have ne: "?j \<noteq> unat bs"
    by (auto simp add: insert_cb_tail0 [OF w Cons.prems(1)] split: if_splits prod.splits)
  with Cons.prems(2) c have lt: "?j < 2 ^ k" by simp
  from Cons.prems(4) ne have rest: "insert_seq bs vs ?s1 = (replicate (length vs) True, s')"
    by (auto simp add: insert_cb_tail0 [OF w Cons.prems(1)] split: prod.splits)
  have slot: "unat (m_head s AND buffer_mask bs) = ?j"
    using lt by (simp add: M slot_mask)
  have h1: "unat (m_head s + 1) = Suc ?j"
    using unat_succ [OF succ_below [OF lt k]] by simp
  have st1: "m_dataBuff ?s1 = (m_dataBuff s)[?j := v]"
    by (simp add: slot)
  have pre: "m_tail ?s1 = 0" "unat (m_head ?s1) \<le> 2 ^ k" "length (m_dataBuff ?s1) = 2 ^ k"
    using Cons.prems(1,3) lt h1 by simp_all
  note ih = Cons.IH [OF pre rest]
  have "take (Suc ?j) ((m_dataBuff s)[?j := v]) = take ?j (m_dataBuff s) @ [v]"
    using lt Cons.prems(3) by (simp add: take_Suc_conv_app_nth)
  with ih show ?case
    by (simp add: h1 st1)
qed

lemma remove_seq_run:
  fixes s :: "('a, 'w::len) CircularBuffer"
  assumes k: "k < LENGTH('w)" and M: "(buffer_mask bs :: 'w word) = mask k"
  shows "unat (m_head s) = unat (m_tail s) + m \<Longrightarrow> unat (m_tail s) + m \<le> 2 ^ k \<Longrightarrow>
         length (m_dataBuff s) = 2 ^ k \<Longrightarrow>
         remove_seq bs m d s = map (Pair True) (take m (drop (unat (m_tail s)) (m_dataBuff s)))"
proof (induction m arbitrary: s d)
  case 0
  then show ?case by simp
next
  case (Suc m)
  let ?j = "unat (m_tail s)"
  let ?s1 = "s\<lparr>m_tail := m_tail s + 1\<rparr>"
  from Suc.prems(1) have ne: "m_tail s \<noteq> m_head s" by (auto simp add: word_unat_eq_iff)
  from Suc.prems(2) have lt: "?j < 2 ^ k" by simp
  have slot: "unat (m_tail s AND buffer_mask bs) = ?j"
    using lt by (simp add: M slot_mask)
  have t1: "unat (m_tail s + 1) = Suc ?j"
    using unat_succ [OF succ_below [OF lt k]] by simp
  have pre: "unat (m_head ?s1) = unat (m_tail ?s1) + m" "unat (m_tail ?s1) + m \<le> 2 ^ k"
    "length (m_dataBuff ?s1) = 2 ^ k"
    using Suc.prems t1 by simp_all
  note ih = Suc.IH [OF pre]
  have "take (Suc m) (drop ?j (m_dataBuff s))
          = m_dataBuff s ! ?j # take m (drop (Suc ?j) (m_dataBuff s))"
    using lt Suc.prems(3) by (simp add: Cons_nth_drop_Suc [symmetric])
  then show ?case
    using ne ih by (simp add: remove_ptr_def slot t1)
qed

lemma ctor_Some:
  "CircularBuffer_ctor bs mem = Some (s :: ('a, 'w::len) CircularBuffer) \<Longrightarrow>
   bs AND ucast (buffer_mask bs :: 'w word) = 0 \<and> s = \<lparr>m_head = 0, m_tail = 0, m_dataBuff = mem\<rparr>"
  by (auto simp add: CircularBuffer_ctor_def split: if_splits)

lemma ctor_config:
  assumes w: "LENGTH('w::len) \<le> 64"
    and chk: "bs AND ucast (buffer_mask bs :: 'w word) = 0"
    and pos: "0 < unat bs" and rep: "unat bs < 2 ^ LENGTH('w)"
  shows "\<exists>k < LENGTH('w). unat bs = 2 ^ k \<and> (buffer_mask bs :: 'w word) = mask k"
proof -
  have u: "unat (ucast bs :: 'w word) = unat bs"
    using rep by (rule unat_ucast_down_lt)
  with pos have nz: "(ucast bs :: 'w word) \<noteq> 0" by (auto simp add: unat_eq_0 [symmetric])
  from ctor_check_mask [OF w chk nz] obtain k where
    k: "k < LENGTH('w)" "(ucast bs :: 'w word) = 2 ^ k" "(buffer_mask bs :: 'w word) = mask k"
    by blast
  have "unat (2 ^ k :: 'w word) = 2 ^ k" using k(1) by (rule unat_pow2)
  with u k(2) have "unat bs = 2 ^ k" by simp
  with k show ?thesis by blast
qed

text \<open>First in, first out, where the test of \<open>insert\<close> sees the full buffer. Take a
  buffer whose capacity is positive and less than \<open>2 ^ LENGTH('w)\<close>, created empty by the
  default constructor, and any list \<open>vs\<close> of values whose \<open>insert\<close> calls, made in order,
  all return \<open>true\<close>. Then \<open>length vs\<close> calls of \<open>remove(T *data)\<close> all return \<open>true\<close>,
  and the \<open>i\<close>-th call stores the \<open>i\<close>-th value of \<open>vs\<close>.\<close>

theorem fifo_order:
  fixes s0 :: "('a, 'w::len) CircularBuffer"
  assumes w: "LENGTH('w) \<le> 64"
    and pos: "0 < unat bs" and rep: "unat bs < 2 ^ LENGTH('w)"
    and mem: "length mem = unat bs"
    and ctor: "CircularBuffer_ctor bs mem = Some s0"
    and ins: "insert_seq bs vs s0 = (replicate (length vs) True, s1)"
  shows "remove_seq bs (length vs) d s1 = map (Pair True) vs"
proof -
  from ctor_Some [OF ctor] have chk: "bs AND ucast (buffer_mask bs :: 'w word) = 0"
    and s0: "s0 = \<lparr>m_head = 0, m_tail = 0, m_dataBuff = mem\<rparr>" by simp_all
  from ctor_config [OF w chk pos rep] obtain k where
    k: "k < LENGTH('w)" and c: "unat bs = 2 ^ k" and M: "(buffer_mask bs :: 'w word) = mask k"
    by blast
  have pre: "m_tail s0 = 0" "unat (m_head s0) \<le> 2 ^ k" "length (m_dataBuff s0) = 2 ^ k"
    using mem c by (simp_all add: s0)
  from insert_seq_from_zero [OF w k M c pre ins]
  have n: "length vs \<le> 2 ^ k" and t: "m_tail s1 = 0" and h: "unat (m_head s1) = length vs"
    and len: "length (m_dataBuff s1) = 2 ^ k" and st: "take (length vs) (m_dataBuff s1) = vs"
    by (simp_all add: s0)
  have "remove_seq bs (length vs) d s1
          = map (Pair True) (take (length vs) (drop (unat (m_tail s1)) (m_dataBuff s1)))"
    using h n len by (intro remove_seq_run [OF k M]) (simp_all add: t)
  then show ?thesis by (simp add: t st)
qed

theorem fifo_order_witness:
  "LENGTH(8) \<le> 64 \<and> 0 < unat (4 :: size_t) \<and> unat (4 :: size_t) < 2 ^ LENGTH(8)
 \<and> length [0, 0, 0, 0 :: nat] = unat (4 :: size_t)
 \<and> CircularBuffer_ctor 4 [0, 0, 0, 0 :: nat]
     = Some \<lparr>m_head = 0 :: 8 word, m_tail = 0, m_dataBuff = [0, 0, 0, 0]\<rparr>
 \<and> insert_seq 4 [5, 6, 7] \<lparr>m_head = 0 :: 8 word, m_tail = 0, m_dataBuff = [0, 0, 0, 0 :: nat]\<rparr>
     = (replicate (length [5, 6, 7 :: nat]) True,
        \<lparr>m_head = 3, m_tail = 0, m_dataBuff = [5, 6, 7, 0]\<rparr>)
 \<and> remove_seq 4 (length [5, 6, 7 :: nat]) 0
       \<lparr>m_head = 3 :: 8 word, m_tail = 0, m_dataBuff = [5, 6, 7, 0 :: nat]\<rparr>
     = [(True, 5), (True, 6), (True, 7)]"
proof -
  have w: "LENGTH(8) \<le> 64" by simp
  have pos: "0 < unat (4 :: size_t)" by simp
  have rep: "unat (4 :: size_t) < 2 ^ LENGTH(8)" by simp
  have mem: "length [0, 0, 0, 0 :: nat] = unat (4 :: size_t)" by simp
  have ctor: "CircularBuffer_ctor 4 [0, 0, 0, 0 :: nat]
     = Some \<lparr>m_head = 0 :: 8 word, m_tail = 0, m_dataBuff = [0, 0, 0, 0]\<rparr>"
    by (simp add: CircularBuffer_ctor_def buffer_mask_def)
  have ins: "insert_seq 4 [5, 6, 7] \<lparr>m_head = 0 :: 8 word, m_tail = 0, m_dataBuff = [0, 0, 0, 0 :: nat]\<rparr>
     = (replicate (length [5, 6, 7 :: nat]) True,
        \<lparr>m_head = 3, m_tail = 0, m_dataBuff = [5, 6, 7, 0]\<rparr>)"
    by code_simp
  from fifo_order [OF w pos rep mem ctor ins, of 0] w pos rep mem ctor ins
  show ?thesis by simp
qed

section \<open>Bulk write and bulk read\<close>

lemma writeBuff_loop_snoc:
  "i \<le> n \<Longrightarrow>
   writeBuff_loop bs buff i (Suc n) s =
     (let t = writeBuff_loop bs buff i n s
      in t\<lparr>m_dataBuff := (m_dataBuff t)[unat (m_head t AND buffer_mask bs) := buff ! n],
            m_head := m_head t + 1\<rparr>)"
proof (induction "n - i" arbitrary: i s)
  case 0
  then have i: "i = n" by simp
  show ?case
    by (simp add: i writeBuff_loop.simps [of bs buff n "Suc n"]
        writeBuff_loop.simps [of bs buff "Suc n" "Suc n"] writeBuff_loop.simps [of bs buff n n])
next
  case (Suc d)
  then have lt: "i < n" and d: "d = n - Suc i" and le: "Suc i \<le> n" by simp_all
  show ?case
    using lt Suc.hyps(1) [OF d le]
    by (simp add: writeBuff_loop.simps [of bs buff i "Suc n"] writeBuff_loop.simps [of bs buff i n])
qed

lemma readBuff_loop_snoc:
  "i \<le> n \<Longrightarrow>
   readBuff_loop bs i (Suc n) (buff, s) =
     (case readBuff_loop bs i n (buff, s) of (b, t) \<Rightarrow>
        (b[n := m_dataBuff t ! unat (m_tail t AND buffer_mask bs)], t\<lparr>m_tail := m_tail t + 1\<rparr>))"
proof (induction "n - i" arbitrary: i buff s)
  case 0
  then have i: "i = n" by simp
  show ?case
    by (simp add: i readBuff_loop.simps [of bs n "Suc n"]
        readBuff_loop.simps [of bs "Suc n" "Suc n"] readBuff_loop.simps [of bs n n])
next
  case (Suc d)
  then have lt: "i < n" and d: "d = n - Suc i" and le: "Suc i \<le> n" by simp_all
  show ?case
    using lt Suc.hyps(1) [OF d le]
    by (simp add: readBuff_loop.simps [of bs i "Suc n"] readBuff_loop.simps [of bs i n])
qed





lemma writeBuff_unfold:
  "writeBuff bs src count s =
     (min count (ucast (writeAvailable bs s)),
      writeBuff_loop bs src 0 (unat (min count (ucast (writeAvailable bs s)))) s)"
  by (auto simp add: writeBuff_def writeAvailable_def Let_def min_def)

lemma readBuff_unfold:
  "readBuff bs dest count s =
     (min count (ucast (readAvailable s)),
      readBuff_loop bs 0 (unat (min count (ucast (readAvailable s)))) (dest, s))"
  by (auto simp add: readBuff_def readAvailable_def Let_def min_def)


lemma of_nat_unat_small:
  assumes "n < 2 ^ LENGTH('w::len)"
  shows "unat (of_nat n :: 'w word) = n"
  using assms by (simp add: unat_of_nat)








section \<open>Counters at least as wide as \<open>int\<close>, and counters that have not wrapped\<close>

text \<open>When \<open>index_t\<close> is at least as wide as \<open>int\<close>, or \<open>m_tail \<le> m_head\<close>, the value of
  \<open>m_head - m_tail\<close> converted to \<open>size_t\<close> is the number of pending elements, and the
  comparisons of \<open>insert\<close> and \<open>at\<close> with it are the ones their documentation
  describes.\<close>

lemma diff_size_t_wide:
  fixes h t :: "'w::len word"
  assumes "32 \<le> LENGTH('w)"
  shows "to_size_t (head_minus_tail h t) = ucast (h - t)"
proof -
  have "head_minus_tail h t = uint (h - t)"
    using assms by (simp add: head_minus_tail_def)
  then show ?thesis by (simp only: to_size_t_def ucast_eq)
qed

lemma diff_size_t_unwrapped:
  fixes h t :: "'w::len word"
  assumes "t \<le> h"
  shows "to_size_t (head_minus_tail h t) = ucast (h - t)"
proof -
  have "uint (h - t) = uint h - uint t"
    using assms by (simp add: uint_sub_lem [symmetric] word_le_def)
  then have "head_minus_tail h t = uint (h - t)"
    by (simp add: head_minus_tail_def)
  then show ?thesis by (simp only: to_size_t_def ucast_eq)
qed

lemma ucast_index_eq_iff:
  assumes "LENGTH('w::len) \<le> 64"
  shows "(ucast (a :: 'w word) :: size_t) = c \<longleftrightarrow> unat a = unat c"
  by (simp only: word_unat_eq_iff unat_ucast_up [OF assms])

lemma insert_cb_exact:
  fixes s :: "('a, 'w::len) CircularBuffer"
  assumes w: "LENGTH('w) \<le> 64" and x: "32 \<le> LENGTH('w) \<or> m_tail s \<le> m_head s"
  shows "insert_cb bs v s =
           (if unat (readAvailable s) = unat bs then (False, s)
            else (True, s\<lparr>m_dataBuff := (m_dataBuff s)[unat (m_head s AND buffer_mask bs) := v],
                          m_head := m_head s + 1\<rparr>))"
proof -
  from x have "to_size_t (head_minus_tail (m_head s) (m_tail s)) = ucast (m_head s - m_tail s)"
    by (auto intro: diff_size_t_wide diff_size_t_unwrapped)
  then show ?thesis
    by (simp add: insert_cb_def readAvailable_diff ucast_index_eq_iff [OF w])
qed

lemma at_cb_exact:
  fixes s :: "('a, 'w::len) CircularBuffer"
  assumes w: "LENGTH('w) \<le> 64" and x: "32 \<le> LENGTH('w) \<or> m_tail s \<le> m_head s"
  shows "fst (at_cb bs index s) = None \<longleftrightarrow> unat (readAvailable s) \<le> unat index"
proof -
  from x have "to_size_t (head_minus_tail (m_head s) (m_tail s)) = ucast (m_head s - m_tail s)"
    by (auto intro: diff_size_t_wide diff_size_t_unwrapped)
  then show ?thesis
    by (simp add: at_cb_def readAvailable_diff word_le_nat_alt unat_ucast_up [OF w])
qed

lemma unat_succ_le: "unat (x + 1) \<le> unat x + 1" for x :: "'w::len word"
  by (simp add: unat_word_ariths)

lemma count_inv_insert_exact:
  fixes s :: "('a, 'w::len) CircularBuffer"
  assumes w: "LENGTH('w) \<le> 64" and x: "32 \<le> LENGTH('w) \<or> m_tail s \<le> m_head s"
    and inv: "count_inv bs s"
  shows "count_inv bs (snd (insert_cb bs v s))"
proof (cases "unat (readAvailable s) = unat bs")
  case True
  then show ?thesis using inv by (simp add: insert_cb_exact [OF w x])
next
  case False
  with inv have lt: "unat (m_head s - m_tail s) < unat bs"
    by (simp add: count_inv_def readAvailable_diff)
  have "m_head s + 1 - m_tail s = (m_head s - m_tail s) + 1" by simp
  then have "unat (m_head s + 1 - m_tail s) \<le> unat (m_head s - m_tail s) + 1"
    by (simp only: unat_succ_le)
  with lt have "unat (m_head s + 1 - m_tail s) \<le> unat bs" by simp
  with False show ?thesis by (simp add: insert_cb_exact [OF w x] count_inv_def)
qed

lemma writeBuff_loop_head: "m_head (writeBuff_loop bs buff 0 n s) = m_head s + of_nat n"
proof (induction n)
  case 0
  show ?case by (simp add: writeBuff_loop.simps [of bs buff 0 0])
next
  case (Suc n)
  then show ?case
    using writeBuff_loop_snoc [of 0 n bs buff s] by (simp add: Let_def)
qed

lemma readBuff_loop_tail: "m_tail (snd (readBuff_loop bs 0 n (dest, s))) = m_tail s + of_nat n"
proof (induction n)
  case 0
  show ?case by (simp add: readBuff_loop.simps [of bs 0 0])
next
  case (Suc n)
  then show ?case
    using readBuff_loop_snoc [of 0 n bs dest s] by (simp add: split_beta)
qed

lemma unat_add_le: "unat (a + b) \<le> unat a + unat b" for a b :: "'w::len word"
  by (simp add: unat_word_ariths)

lemma unat_of_nat_le: "unat (of_nat n :: 'w::len word) \<le> n"
  by (simp add: unat_of_nat)

lemma count_inv_remove:
  assumes "count_inv bs s" and "m_tail s \<noteq> m_head s"
  shows "count_inv bs (s\<lparr>m_tail := m_tail s + 1\<rparr>)"
proof -
  have nz: "m_head s - m_tail s \<noteq> 0" using assms(2) by auto
  have "m_head s - (m_tail s + 1) = (m_head s - m_tail s) - 1" by simp
  then have "unat (m_head s - (m_tail s + 1)) = unat (m_head s - m_tail s) - 1"
    by (simp only: unat_minus_one [OF nz])
  with assms(1) show ?thesis by (simp add: count_inv_def)
qed

lemma count_inv_remove_cnt:
  fixes s :: "('a, 'w::len) CircularBuffer"
  assumes w: "LENGTH('w) \<le> 64" and inv: "count_inv bs s"
  shows "count_inv bs (snd (remove_cnt cnt s))"
proof -
  obtain r s' where run: "remove_cnt cnt s = (r, s')" by (cases "remove_cnt cnt s")
  from remove_cnt_clamps [OF w run]
  have "unat (readAvailable s') = unat (readAvailable s) - unat r" by simp
  with inv show ?thesis by (simp add: run count_inv_def readAvailable_diff)
qed

lemma count_inv_readBuff:
  fixes s :: "('a, 'w::len) CircularBuffer"
  assumes w: "LENGTH('w) \<le> 64" and inv: "count_inv bs s"
  shows "count_inv bs (snd (snd (readBuff bs dest count s)))"
proof -
  let ?n = "min count (ucast (readAvailable s))"
  let ?ra = "m_head s - m_tail s"
  have un: "unat ?n \<le> unat ?ra"
    by (simp add: unat_min_word unat_ucast_up [OF w] readAvailable_diff)
  then have "unat ?n < 2 ^ LENGTH('w)"
    using unsigned_less [of ?ra] by (rule le_less_trans)
  then have u: "unat (of_nat (unat ?n) :: 'w word) = unat ?n"
    by (rule of_nat_unat_small)
  then have "(of_nat (unat ?n) :: 'w word) \<le> ?ra"
    using un by (simp add: word_le_nat_alt)
  then have "unat (?ra - of_nat (unat ?n)) = unat ?ra - unat (of_nat (unat ?n) :: 'w word)"
    by (rule unat_sub)
  then have dec: "unat (?ra - of_nat (unat ?n)) \<le> unat ?ra" by simp
  have eq: "m_head s - (m_tail s + of_nat (unat ?n)) = ?ra - of_nat (unat ?n)"
    by (simp only: diff_diff_eq)
  from inv have "unat ?ra \<le> unat bs" by (simp only: count_inv_def)
  with dec have "unat (?ra - of_nat (unat ?n)) \<le> unat bs" by (rule order_trans)
  then have "unat (m_head s - (m_tail s + of_nat (unat ?n))) \<le> unat bs"
    by (simp only: eq)
  then show ?thesis
    by (simp add: readBuff_unfold count_inv_def readBuff_loop_tail readBuff_loop_head)
qed

lemma count_inv_writeBuff:
  fixes s :: "('a, 'w::len) CircularBuffer"
  assumes w: "LENGTH('w) \<le> 64" and inv: "count_inv bs s"
  shows "count_inv bs (snd (writeBuff bs buff count s))"
proof (cases "unat bs < 2 ^ LENGTH('w)")
  case False
  let ?d = "m_head (snd (writeBuff bs buff count s)) - m_tail (snd (writeBuff bs buff count s))"
  have "unat ?d < 2 ^ LENGTH('w)" by (rule unsigned_less)
  moreover from False have "2 ^ LENGTH('w) \<le> unat bs" by (simp only: not_less)
  ultimately have "unat ?d \<le> unat bs" by (meson less_le_trans less_imp_le)
  then show ?thesis by (simp only: count_inv_def)
next
  case True
  let ?n = "min count (ucast (writeAvailable bs s))"
  let ?ra = "m_head s - m_tail s"
  have ub: "unat (ucast bs :: 'w word) = unat bs" using True by (rule unat_ucast_down_lt)
  from inv have le: "?ra \<le> ucast bs" by (simp add: count_inv_def word_le_nat_alt ub)
  have "unat (writeAvailable bs s) = unat (ucast bs :: 'w word) - unat ?ra"
    unfolding writeAvailable_diff [OF w] using le by (rule unat_sub)
  then have wa: "unat (writeAvailable bs s) = unat bs - unat ?ra" by (simp only: ub)
  have "unat ?n \<le> unat (writeAvailable bs s)"
    by (simp add: unat_min_word unat_ucast_up [OF w])
  with wa inv have n: "unat ?ra + unat ?n \<le> unat bs" by (simp add: count_inv_def)
  have "m_head s + of_nat (unat ?n) - m_tail s = ?ra + of_nat (unat ?n)" by simp
  then have "unat (m_head s + of_nat (unat ?n) - m_tail s)
      \<le> unat ?ra + unat (of_nat (unat ?n) :: 'w word)"
    by (simp only: unat_add_le)
  also have "\<dots> \<le> unat ?ra + unat ?n"
    using unat_of_nat_le [of "unat ?n", where 'w='w] by simp
  finally have "unat (m_head s + of_nat (unat ?n) - m_tail s) \<le> unat bs"
    using n by simp
  then show ?thesis
    by (simp add: writeBuff_unfold count_inv_def writeBuff_loop_head writeBuff_loop_tail)
qed

text \<open>With counters at least as wide as \<open>int\<close> every call keeps the number of pending
  elements within the capacity.\<close>

lemma count_inv_exec_wide:
  fixes s :: "('a, 'w::len) CircularBuffer"
  assumes w: "LENGTH('w) \<le> 64" and wide: "32 \<le> LENGTH('w)" and inv: "count_inv bs s"
  shows "count_inv bs (exec bs c s)"
proof (cases c)
  case (Insert v)
  from wide have x: "32 \<le> LENGTH('w) \<or> m_tail s \<le> m_head s" by simp
  from count_inv_insert_exact [OF w x inv] Insert show ?thesis by simp
next
  case Remove
  then show ?thesis using inv count_inv_remove [OF inv] by (simp add: remove_cb_def)
next
  case (RemoveCnt cnt)
  then show ?thesis using count_inv_remove_cnt [OF w inv] by simp
next
  case (RemovePtr d)
  then show ?thesis using inv count_inv_remove [OF inv] by (simp add: remove_ptr_def)
next
  case Clear
  then show ?thesis by (simp add: clear_def count_inv_def)
next
  case Peek
  then show ?thesis using inv by (simp add: peek_def)
next
  case (At i)
  then show ?thesis using inv by (simp add: at_cb_def)
next
  case (WriteBuff buff count)
  then show ?thesis using count_inv_writeBuff [OF w inv] by simp
next
  case (ReadBuff dest count)
  then show ?thesis using count_inv_readBuff [OF w inv] by simp
qed

lemma count_inv_run_wide:
  fixes s :: "('a, 'w::len) CircularBuffer"
  assumes w: "LENGTH('w) \<le> 64" and wide: "32 \<le> LENGTH('w)"
  shows "count_inv bs s \<Longrightarrow> count_inv bs (run bs cs s)"
proof (induction cs arbitrary: s)
  case Nil
  then show ?case by (simp add: run_def)
next
  case (Cons c cs)
  from Cons.IH [OF count_inv_exec_wide [OF w wide Cons.prems]]
  show ?case by (simp add: run_def)
qed

lemma occupancy_sum:
  fixes s :: "('a, 'w::len) CircularBuffer"
  assumes w: "LENGTH('w) \<le> 64" and rep: "unat bs < 2 ^ LENGTH('w)" and inv: "count_inv bs s"
  shows "unat (readAvailable s) + unat (writeAvailable bs s) = unat bs"
proof -
  let ?ra = "m_head s - m_tail s"
  have ub: "unat (ucast bs :: 'w word) = unat bs" using rep by (rule unat_ucast_down_lt)
  from inv have le: "?ra \<le> ucast bs" by (simp add: count_inv_def word_le_nat_alt ub)
  have "unat (writeAvailable bs s) = unat (ucast bs :: 'w word) - unat ?ra"
    unfolding writeAvailable_diff [OF w] using le by (rule unat_sub)
  with inv show ?thesis by (simp add: ub readAvailable_diff count_inv_def)
qed

text \<open>So with such counters, in every state reached from a created buffer,
  \<open>readAvailable () + writeAvailable ()\<close> is the capacity, and \<open>insert\<close> on a full buffer
  returns \<open>false\<close> and changes nothing.\<close>

lemma reachable_wide:
  fixes s0 :: "('a, 'w::len) CircularBuffer"
  assumes w: "LENGTH('w) \<le> 64" and wide: "32 \<le> LENGTH('w)"
    and rep: "unat bs < 2 ^ LENGTH('w)"
    and ctor: "CircularBuffer_ctor bs mem = Some s0"
  shows "count_inv bs (run bs cs s0)
       \<and> unat (readAvailable (run bs cs s0)) + unat (writeAvailable bs (run bs cs s0)) = unat bs
       \<and> (isFull bs (run bs cs s0) \<longrightarrow> insert_cb bs v (run bs cs s0) = (False, run bs cs s0))"
proof -
  let ?s = "run bs cs s0"
  from ctor_Some [OF ctor] have "count_inv bs s0" by (simp add: count_inv_def)
  then have inv: "count_inv bs ?s" by (rule count_inv_run_wide [OF w wide])
  note occ = occupancy_sum [OF w rep inv]
  have "insert_cb bs v ?s = (False, ?s)" if "isFull bs ?s"
  proof -
    from that occ have "unat (readAvailable ?s) = unat bs" by (simp add: isFull_def)
    moreover from wide have "32 \<le> LENGTH('w) \<or> m_tail ?s \<le> m_head ?s" by simp
    ultimately show ?thesis by (simp add: insert_cb_exact [OF w])
  qed
  with inv occ show ?thesis by simp
qed

lemma and_ucast_up:
  fixes a :: size_t and m :: "'w::len word"
  shows "a AND ucast m = ucast ((ucast a :: 'w word) AND m)"
  by (rule bit_word_eqI) (auto simp add: bit_simps dest: bit_imp_le_length)

lemma at_cb_exact_value:
  fixes s :: "('a, 'w::len) CircularBuffer"
  assumes w: "LENGTH('w) \<le> 64" and x: "32 \<le> LENGTH('w) \<or> m_tail s \<le> m_head s"
  shows "at_cb bs index s =
           (if unat (readAvailable s) \<le> unat index then None
            else Some (unat ((m_tail s + ucast index) AND buffer_mask bs)), s)"
proof -
  from x have "to_size_t (head_minus_tail (m_head s) (m_tail s)) = ucast (m_head s - m_tail s)"
    by (auto intro: diff_size_t_wide diff_size_t_unwrapped)
  moreover have "unat ((ucast (m_tail s) + index) AND ucast (buffer_mask bs :: 'w word))
      = unat ((m_tail s + ucast index) AND (buffer_mask bs :: 'w word))"
    by (simp only: and_ucast_up unat_ucast_up [OF w] ucast_down_plus [OF w] ucast_up_down [OF w])
  ultimately show ?thesis
    by (simp add: at_cb_def readAvailable_diff word_le_nat_alt unat_ucast_up [OF w])
qed

lemma is_power_of_two_iff: "is_power_of_two n \<longleftrightarrow> (\<exists>k<64. n = 2 ^ k)"
  by (auto simp add: is_power_of_two_def)

lemma pow2_and_pred_nat: "(2::nat) ^ k AND (2 ^ k - 1) = 0"
proof -
  have "mask k AND (2::nat) ^ k = 0"
    by (simp add: and_exp_eq_0_iff_not_bit bit_mask_iff)
  then have "(2::nat) ^ k AND mask k = 0" by (simp only: and.commute)
  then show ?thesis by (simp only: mask_eq_exp_minus_1)
qed

lemma ctor_accepts_iff:
  assumes w: "LENGTH('w::len) \<le> 64" and pos: "0 < unat bs" and rep: "unat bs < 2 ^ LENGTH('w)"
  shows "(CircularBuffer_ctor bs mem :: ('a, 'w) CircularBuffer option) \<noteq> None
           \<longleftrightarrow> is_power_of_two bs"
proof
  assume "(CircularBuffer_ctor bs mem :: ('a, 'w) CircularBuffer option) \<noteq> None"
  then have chk: "bs AND ucast (buffer_mask bs :: 'w word) = 0"
    by (simp add: CircularBuffer_ctor_def split: if_splits)
  from ctor_config [OF w chk pos rep] obtain k where k: "k < LENGTH('w)" "unat bs = 2 ^ k"
    by blast
  from k(1) w have k64: "k < 64" by simp
  have "unat bs = unat (2 ^ k :: size_t)"
    using k64 by (simp only: k(2) unat_pow2 [where 'w=64, simplified, OF k64])
  then have "bs = 2 ^ k" by (simp only: word_unat_eq_iff)
  with k64 show "is_power_of_two bs" by (auto simp add: is_power_of_two_iff)
next
  assume "is_power_of_two bs"
  then obtain k where k64: "k < 64" and bs: "bs = 2 ^ k" by (auto simp add: is_power_of_two_iff)
  have ub: "unat bs = 2 ^ k" using k64 by (simp only: bs unat_pow2 [where 'w=64, simplified, OF k64])
  have nz: "bs \<noteq> 0" using pos by (auto simp add: unat_eq_0)
  have "unat (bs - 1) = unat bs - 1" using nz by (rule unat_minus_one)
  moreover have "unat (ucast (buffer_mask bs :: 'w word) :: size_t) = unat (bs - 1)"
  proof -
    have "unat (bs - 1) < 2 ^ LENGTH('w)" using rep nz by (simp add: unat_minus_one)
    then have "unat (ucast (bs - 1) :: 'w word) = unat (bs - 1)" by (rule unat_ucast_down_lt)
    then show ?thesis by (simp only: buffer_mask_def unat_ucast_up [OF w])
  qed
  ultimately have "unat (bs AND ucast (buffer_mask bs :: 'w word)) = 2 ^ k AND (2 ^ k - 1)"
    by (simp only: unsigned_and_eq ub)
  then have "bs AND ucast (buffer_mask bs :: 'w word) = 0"
    by (simp only: pow2_and_pred_nat unat_eq_0)
  then show "(CircularBuffer_ctor bs mem :: ('a, 'w) CircularBuffer option) \<noteq> None"
    by (simp add: CircularBuffer_ctor_def)
qed

lemma neg_diff_size_t:
  fixes x :: int
  assumes "- (2 ^ 31) \<le> x" and "x < 0"
  shows "2 ^ 63 \<le> uint (to_size_t x)"
proof -
  have "uint (word_of_int x :: size_t) = x mod 2 ^ 64"
    by (simp add: uint_word_of_int take_bit_eq_mod)
  moreover have "x mod 2 ^ 64 = x + 2 ^ 64"
  proof -
    have "(x + 2 ^ 64) mod 2 ^ 64 = x + 2 ^ 64"
      using assms by (intro mod_pos_pos_trivial) simp_all
    then show ?thesis by simp
  qed
  ultimately have "uint (to_size_t x) = x + 2 ^ 64" by (simp only: to_size_t_def)
  with assms show ?thesis by simp
qed

text \<open>\<open>insert\<close> on a buffer that is not full, for counters of any width: the value is
  stored at \<open>m_head & buffer_mask\<close> and \<open>m_head\<close> is incremented.\<close>

lemma insert_cb_not_full:
  fixes s :: "('a, 'w::len) CircularBuffer"
  assumes w: "LENGTH('w) \<le> 64" and rep: "unat bs < 2 ^ LENGTH('w)"
    and nf: "unat (readAvailable s) \<noteq> unat bs"
  shows "insert_cb bs v s =
           (True, s\<lparr>m_dataBuff := (m_dataBuff s)[unat (m_head s AND buffer_mask bs) := v],
                      m_head := m_head s + 1\<rparr>)"
proof (cases "32 \<le> LENGTH('w) \<or> m_tail s \<le> m_head s")
  case True
  from insert_cb_exact [OF w True] nf show ?thesis by simp
next
  case False
  then have narrow: "LENGTH('w) < 32" and wrapped: "m_head s < m_tail s"
    by (simp_all add: not_le)
  let ?x = "uint (m_head s) - uint (m_tail s)"
  have p: "(2::int) ^ LENGTH('w) \<le> 2 ^ 31"
    using narrow by (intro power_increasing) simp_all
  have "uint (m_tail s) < 2 ^ LENGTH('w)" by (rule uint_lt2p)
  with p have "uint (m_tail s) \<le> 2 ^ 31" by linarith
  moreover have "0 \<le> uint (m_head s)" by (rule uint_ge_0)
  ultimately have lo: "- (2 ^ 31) \<le> ?x" by linarith
  from wrapped have neg: "?x < 0" by (simp add: word_less_def)
  from neg_diff_size_t [OF lo neg] have big: "2 ^ 63 \<le> uint (to_size_t ?x)" .
  from rep have "int (unat bs) < int (2 ^ LENGTH('w))" by (simp only: of_nat_less_iff)
  then have "uint bs < 2 ^ LENGTH('w)" by (simp only: uint_nat of_nat_power of_nat_numeral)
  with p have small: "uint bs < 2 ^ 31" by linarith
  have "to_size_t ?x \<noteq> bs"
  proof
    assume "to_size_t ?x = bs"
    with big have "(2::int) ^ 63 \<le> uint bs" by (simp only:)
    with small show False by simp
  qed
  then show ?thesis
    using narrow by (simp add: insert_cb_def head_minus_tail_def)
qed

section \<open>Instances where a claim fails\<close>

text \<open>Claim C1, evaluated where it fails: \<open>CircularBuffer<int, 256, uint8_t>\<close>. The
  assertion of the constructor holds. On the object just created \<open>isFull\<close> holds and
  \<open>writeBuff\<close> stores nothing, yet \<open>insert\<close> returns \<open>true\<close>: the \<open>int\<close> value of
  \<open>m_head - m_tail\<close> is never 256. So 257 calls of \<open>insert\<close> all return \<open>true\<close>, the last
  one overwrites slot 0, and of the 257 calls of \<open>remove\<close> that follow the first yields
  the 257th value and the other 256 return \<open>false\<close>.\<close>

theorem fifo_broken_256_uint8:
  "CircularBuffer_ctor 256 (replicate 256 (0 :: int))
     = Some \<lparr>m_head = 0 :: 8 word, m_tail = 0, m_dataBuff = replicate 256 0\<rparr>
 \<and> isFull 256 \<lparr>m_head = 0 :: 8 word, m_tail = 0, m_dataBuff = replicate 256 (0 :: int)\<rparr>
 \<and> fst (writeBuff 256 [1] 1
          \<lparr>m_head = 0 :: 8 word, m_tail = 0, m_dataBuff = replicate 256 (0 :: int)\<rparr>) = 0
 \<and> fst (insert_seq 256 (map int [1..<258])
          \<lparr>m_head = 0 :: 8 word, m_tail = 0, m_dataBuff = replicate 256 0\<rparr>)
     = replicate 257 True
 \<and> remove_seq 256 257 0
       (snd (insert_seq 256 (map int [1..<258])
          \<lparr>m_head = 0 :: 8 word, m_tail = 0, m_dataBuff = replicate 256 0\<rparr>))
     = (True, 257) # replicate 256 (False, 257)
 \<and> (True, 257) # replicate 256 (False, 257) \<noteq> map (Pair True) (map int [1..<258])"
proof -
  have a1: "CircularBuffer_ctor 256 (replicate 256 (0 :: int))
     = Some \<lparr>m_head = 0 :: 8 word, m_tail = 0, m_dataBuff = replicate 256 0\<rparr>"
    by (simp add: CircularBuffer_ctor_def buffer_mask_def)
  have a2: "fst (insert_seq 256 (map int [1..<258])
          \<lparr>m_head = 0 :: 8 word, m_tail = 0, m_dataBuff = replicate 256 0\<rparr>)
     = replicate 257 True"
    by code_simp
  have a3: "remove_seq 256 257 0
       (snd (insert_seq 256 (map int [1..<258])
          \<lparr>m_head = 0 :: 8 word, m_tail = 0, m_dataBuff = replicate 256 0\<rparr>))
     = (True, 257) # replicate 256 (False, 257)"
    by code_simp
  have a4: "(True, 257) # replicate 256 (False, 257) \<noteq> map (Pair True) (map int [1..<258])"
    by code_simp
  have a5: "isFull 256 \<lparr>m_head = 0 :: 8 word, m_tail = 0, m_dataBuff = replicate 256 (0 :: int)\<rparr>"
    by (simp add: isFull_def writeAvailable_def to_size_t_def head_minus_tail_def)
  have a6: "fst (writeBuff 256 [1] 1
          \<lparr>m_head = 0 :: 8 word, m_tail = 0, m_dataBuff = replicate 256 (0 :: int)\<rparr>) = 0"
    by (simp add: writeBuff_def Let_def to_size_t_def head_minus_tail_def)
  show ?thesis
    by (intro conjI) (rule a1, rule a5, rule a6, rule a2, rule a3, rule a4)
qed


section \<open>\<open>CircularBuffer<T, 32, uint8_t>\<close> after the head counter has wrapped\<close>

text \<open>The instance of \<open>examples/main.cpp\<close>, with 8-bit counters and 32 slots. 250 times one
  element is inserted and removed, then 32 elements are inserted: \<open>m_tail\<close> is 250 and
  \<open>m_head\<close> has wrapped to 26.\<close>

lemma wrapped_full_reachable:
  "run 32 (concat (replicate 250 [Insert 0, Remove]) @ map Insert [1..<33])
     \<lparr>m_head = 0 :: 8 word, m_tail = 0, m_dataBuff = replicate 32 (0 :: nat)\<rparr>
   = \<lparr>m_head = 26, m_tail = 250, m_dataBuff = [7..<33] @ [1..<7]\<rparr>"
  by code_simp

text \<open>Claim C5, evaluated where it fails. The buffer above holds 32 elements and \<open>isFull\<close>
  holds, yet \<open>insert\<close> returns \<open>true\<close>: \<open>m_head - m_tail\<close> is computed in \<open>int\<close> as
  \<open>26 - 250 = -224\<close>, which as a \<open>size_t\<close> is not 32. The call overwrites slot 26, which
  holds the oldest pending element, and increments \<open>m_head\<close>.\<close>

theorem insert_full_after_wrap:
  "CircularBuffer_ctor 32 (replicate 32 (0 :: nat))
     = Some \<lparr>m_head = 0 :: 8 word, m_tail = 0, m_dataBuff = replicate 32 0\<rparr>
 \<and> run 32 (concat (replicate 250 [Insert 0, Remove]) @ map Insert [1..<33])
     \<lparr>m_head = 0 :: 8 word, m_tail = 0, m_dataBuff = replicate 32 (0 :: nat)\<rparr>
     = \<lparr>m_head = 26, m_tail = 250, m_dataBuff = [7..<33] @ [1..<7]\<rparr>
 \<and> readAvailable \<lparr>m_head = 26 :: 8 word, m_tail = 250, m_dataBuff = [7..<33] @ [1..<7]\<rparr> = 32
 \<and> isFull 32 \<lparr>m_head = 26 :: 8 word, m_tail = 250, m_dataBuff = [7..<33] @ [1..<7]\<rparr>
 \<and> insert_cb 32 99 \<lparr>m_head = 26 :: 8 word, m_tail = 250, m_dataBuff = [7..<33] @ [1..<7]\<rparr>
     = (True, \<lparr>m_head = 27, m_tail = 250, m_dataBuff = [7..<33] @ [99] @ [2..<7]\<rparr>)"
proof -
  have "CircularBuffer_ctor 32 (replicate 32 (0 :: nat))
     = Some \<lparr>m_head = 0 :: 8 word, m_tail = 0, m_dataBuff = replicate 32 0\<rparr>"
    by (simp add: CircularBuffer_ctor_def buffer_mask_def)
  moreover have "readAvailable \<lparr>m_head = 26 :: 8 word, m_tail = 250, m_dataBuff = [7..<33] @ [1..<7]\<rparr> = 32"
    by (simp add: readAvailable_def to_index_t_def head_minus_tail_def)
  moreover have "isFull 32 \<lparr>m_head = 26 :: 8 word, m_tail = 250, m_dataBuff = [7..<33] @ [1..<7]\<rparr>"
    by (simp add: isFull_def writeAvailable_def to_size_t_def head_minus_tail_def)
  moreover have "insert_cb 32 99 \<lparr>m_head = 26 :: 8 word, m_tail = 250, m_dataBuff = [7..<33] @ [1..<7]\<rparr>
     = (True, \<lparr>m_head = 27, m_tail = 250, m_dataBuff = [7..<33] @ [99] @ [2..<7]\<rparr>)"
    by code_simp
  ultimately show ?thesis
    using wrapped_full_reachable by simp
qed

text \<open>Claim C3, evaluated where it fails. In the same state the number of pending elements is
  at most the capacity before the call of \<open>insert\<close> and above it after the call.\<close>

theorem count_inv_broken_by_insert:
  "run 32 (concat (replicate 250 [Insert 0, Remove]) @ map Insert [1..<33])
     \<lparr>m_head = 0 :: 8 word, m_tail = 0, m_dataBuff = replicate 32 (0 :: nat)\<rparr>
     = \<lparr>m_head = 26, m_tail = 250, m_dataBuff = [7..<33] @ [1..<7]\<rparr>
 \<and> count_inv 32 \<lparr>m_head = 26 :: 8 word, m_tail = 250, m_dataBuff = [7..<33] @ [1..<7]\<rparr>
 \<and> \<not> count_inv 32
       (snd (insert_cb 32 99 \<lparr>m_head = 26 :: 8 word, m_tail = 250, m_dataBuff = [7..<33] @ [1..<7]\<rparr>))"
proof -
  have "count_inv 32 \<lparr>m_head = 26 :: 8 word, m_tail = 250, m_dataBuff = [7..<33] @ [1..<7]\<rparr>"
    by (simp add: count_inv_def)
  moreover have "\<not> count_inv 32
       (snd (insert_cb 32 99 \<lparr>m_head = 26 :: 8 word, m_tail = 250, m_dataBuff = [7..<33] @ [1..<7]\<rparr>))"
    by (simp add: count_inv_def insert_cb_def to_size_t_def head_minus_tail_def)
  ultimately show ?thesis
    using wrapped_full_reachable by simp
qed

text \<open>Claim C2, evaluated where it fails. After that call of \<open>insert\<close>,
  \<open>readAvailable ()\<close> is 33 and \<open>writeAvailable ()\<close> is 255: their sum is not the capacity
  32.\<close>

theorem occupancy_sum_after_wrap:
  "run 32 (concat (replicate 250 [Insert 0, Remove]) @ map Insert [1..<33] @ [Insert 99])
     \<lparr>m_head = 0 :: 8 word, m_tail = 0, m_dataBuff = replicate 32 (0 :: nat)\<rparr>
     = \<lparr>m_head = 27, m_tail = 250, m_dataBuff = [7..<33] @ [99] @ [2..<7]\<rparr>
 \<and> unat (readAvailable \<lparr>m_head = 27 :: 8 word, m_tail = 250, m_dataBuff = [7..<33] @ [99] @ [2..<7]\<rparr>) = 33
 \<and> unat (writeAvailable 32 \<lparr>m_head = 27 :: 8 word, m_tail = 250, m_dataBuff = [7..<33] @ [99] @ [2..<7]\<rparr>) = 255
 \<and> unat (32 :: size_t) = 32"
proof -
  have "run 32 ((concat (replicate 250 [Insert 0, Remove]) @ map Insert [1..<33]) @ [Insert 99])
     \<lparr>m_head = 0 :: 8 word, m_tail = 0, m_dataBuff = replicate 32 (0 :: nat)\<rparr>
     = exec 32 (Insert 99) \<lparr>m_head = 26 :: 8 word, m_tail = 250, m_dataBuff = [7..<33] @ [1..<7]\<rparr>"
    unfolding run_def fold_append comp_def
    using wrapped_full_reachable by (simp add: run_def)
  also have "\<dots> = \<lparr>m_head = 27, m_tail = 250, m_dataBuff = [7..<33] @ [99] @ [2..<7]\<rparr>"
    by code_simp
  finally have "run 32 (concat (replicate 250 [Insert 0, Remove]) @ map Insert [1..<33] @ [Insert 99])
     \<lparr>m_head = 0 :: 8 word, m_tail = 0, m_dataBuff = replicate 32 (0 :: nat)\<rparr>
     = \<lparr>m_head = 27, m_tail = 250, m_dataBuff = [7..<33] @ [99] @ [2..<7]\<rparr>"
    by simp
  moreover have "unat (readAvailable \<lparr>m_head = 27 :: 8 word, m_tail = 250, m_dataBuff = [7..<33] @ [99] @ [2..<7]\<rparr>) = 33"
    by (simp add: readAvailable_def to_index_t_def head_minus_tail_def)
  moreover have "unat (writeAvailable 32 \<lparr>m_head = 27 :: 8 word, m_tail = 250, m_dataBuff = [7..<33] @ [99] @ [2..<7]\<rparr>) = 255"
    by (simp add: writeAvailable_def to_size_t_def head_minus_tail_def)
  ultimately show ?thesis by simp
qed

text \<open>Claim C4, evaluated where it fails. In the state with 32 pending elements, \<open>at(40)\<close>
  does not return \<open>NULL\<close>: the \<open>int\<close> value \<open>-224\<close> of \<open>m_head - m_tail\<close>, converted to
  \<open>size_t\<close>, is not \<open>\<le> 40\<close>, and the call returns the address of slot
  \<open>(250 + 40) & 31 = 2\<close>.\<close>

theorem at_beyond_count_after_wrap:
  "run 32 (concat (replicate 250 [Insert 0, Remove]) @ map Insert [1..<33])
     \<lparr>m_head = 0 :: 8 word, m_tail = 0, m_dataBuff = replicate 32 (0 :: nat)\<rparr>
     = \<lparr>m_head = 26, m_tail = 250, m_dataBuff = [7..<33] @ [1..<7]\<rparr>
 \<and> readAvailable \<lparr>m_head = 26 :: 8 word, m_tail = 250, m_dataBuff = [7..<33] @ [1..<7]\<rparr> = 32
 \<and> at_cb 32 40 \<lparr>m_head = 26 :: 8 word, m_tail = 250, m_dataBuff = [7..<33] @ [1..<7]\<rparr>
     = (Some 2, \<lparr>m_head = 26, m_tail = 250, m_dataBuff = [7..<33] @ [1..<7]\<rparr>)"
proof -
  have "readAvailable \<lparr>m_head = 26 :: 8 word, m_tail = 250, m_dataBuff = [7..<33] @ [1..<7]\<rparr> = 32"
    by (simp add: readAvailable_def to_index_t_def head_minus_tail_def)
  moreover have "at_cb 32 40 \<lparr>m_head = 26 :: 8 word, m_tail = 250, m_dataBuff = [7..<33] @ [1..<7]\<rparr>
     = (Some 2, \<lparr>m_head = 26, m_tail = 250, m_dataBuff = [7..<33] @ [1..<7]\<rparr>)"
    by (simp add: at_cb_def to_size_t_def head_minus_tail_def buffer_mask_def)
  ultimately show ?thesis
    using wrapped_full_reachable by simp
qed

section \<open>The assertion of the constructor\<close>

text \<open>Claim C9, evaluated where it fails. With \<open>uint8_t\<close> counters the mask of a capacity of
  768 is \<open>767\<close> converted to \<open>uint8_t\<close>, which is 255, and \<open>768 & 255 = 0\<close>: the assertion
  of the constructor holds although 768 is not a power of two.\<close>

theorem ctor_accepts_768:
  "CircularBuffer_ctor 768 (replicate 768 (0 :: nat))
     = Some \<lparr>m_head = 0 :: 8 word, m_tail = 0, m_dataBuff = replicate 768 0\<rparr>
 \<and> \<not> is_power_of_two 768"
proof -
  have "\<not> is_power_of_two 768" by code_simp
  then show ?thesis
    by (simp add: CircularBuffer_ctor_def buffer_mask_def)
qed

end
